theory Spec2Isabelle
  imports Main
begin

section \<open>The watch command (watch.go)\<close>

text \<open>
  The watcher of \<^verbatim>\<open>RegisterWatch\<close> is one control loop, a \<^verbatim>\<open>select\<close> over three
  unbuffered channels, and the goroutines it starts: the callback of
  \<^verbatim>\<open>time.AfterFunc\<close> and \<^verbatim>\<open>go doPush(...)\<close>. The model keeps the loop's variable
  \<^verbatim>\<open>watcherState\<close>, a logical clock in nanoseconds, the list of live goroutines (each
  with the statements it still has to run) and the trace of what has been done so far.
  A send on an unbuffered channel completes when the loop receives it, so a goroutine
  whose next statement is a send stays in the list until the loop takes that case.
\<close>

subsection \<open>Data\<close>

datatype WatcherState = waiting | initialDelay | pushing | pushingAndGotEvent

text \<open>A non-nil Go \<^verbatim>\<open>error\<close>: one that a library returns, or one built by
  \<^verbatim>\<open>fmt.Errorf\<close> from a format and, where it has one, its argument.\<close>

datatype error = Error string | Errorf string "int list"

text \<open>The two channels goroutines of this program send on. (\<^verbatim>\<open>fileWatch\<close> is fed by the
  notify library.)\<close>

datatype chan = initialDelayDone | pushDone

record EventInfo =
  Event :: nat
  Path :: string

text \<open>The package variables bound to the command line, the local \<^verbatim>\<open>localFrontend\<close>
  and \<^verbatim>\<open>args.Verbose\<close>.\<close>

record vars =
  appPath :: string
  noBrowser :: bool
  timeout :: int
  localFrontend :: bool
  Verbose :: bool

text \<open>What the command calls outside watch.go: the standard library, the notify
  library and \<^verbatim>\<open>IgnoreFilePath\<close>, a function of the package that lives in another file.
  They are parameters of the model.\<close>

record extern =
  filepath_Abs :: "string \<Rightarrow> error + string"
  path_Join :: "string \<Rightarrow> string \<Rightarrow> string"
  notify_Watch :: "string \<Rightarrow> error option"
  filepath_Rel :: "string \<Rightarrow> string \<Rightarrow> error + string"
  IgnoreFilePath :: "string \<Rightarrow> bool"

text \<open>The statements of \<^verbatim>\<open>doPush\<close> and of the timer's callback. \<^verbatim>\<open>Call_push\<close> carries
  the arguments of \<^verbatim>\<open>push\<close> that watch.go computes: \<^verbatim>\<open>appPath\<close>, the third argument
  \<^verbatim>\<open>!openBrowser\<close>, \<^verbatim>\<open>180\<close>, \<^verbatim>\<open>timeout\<close> and \<^verbatim>\<open>localFrontend\<close>.\<close>

datatype stmt =
  Call_push string bool int int bool
| Call_SendReload
| Send chan

text \<open>\<^verbatim>\<open>push\<close> returns no value; whether it succeeded is only known to the outside.\<close>

datatype outcome = Succeeded | Failed

datatype logline =
  Log_event_details EventInfo
| Log_rel_error string
| Log_ignoring string
| Log_change_detected
| Log_push_done

datatype event =
  Ev_StartServer
| Ev_push string bool int int bool outcome
| Ev_SendReload
| Ev_log logline
| Ev_AfterFunc nat "stmt list"
| Ev_go "stmt list"

record goroutine =
  wake :: nat
  prog :: "stmt list"

record sys =
  watcherState :: WatcherState
  absPath :: string
  now :: nat
  goroutines :: "goroutine list"
  trace :: "event list"

definition Millisecond :: nat where
  "Millisecond = 1000000"

subsection \<open>doPush\<close>

definition doPush :: "vars \<Rightarrow> bool \<Rightarrow> chan option \<Rightarrow> stmt list" where
  "doPush V openBrowser done =
     [Call_push (appPath V) (\<not> openBrowser) 180 (timeout V) (localFrontend V)]
     @ (if \<not> openBrowser then [Call_SendReload] else [])
     @ (case done of None \<Rightarrow> [] | Some c \<Rightarrow> [Send c])"

text \<open>One statement run to completion: what it adds to the trace. A send has no effect of
  its own; it is the loop's receive that acts.\<close>

fun run_stmt :: "outcome \<Rightarrow> stmt \<Rightarrow> event list" where
  "run_stmt r (Call_push p nb w t l) = [Ev_push p nb w t l r]"
| "run_stmt r Call_SendReload = [Ev_SendReload]"
| "run_stmt r (Send c) = []"

text \<open>A call on the caller's own goroutine, before the loop runs: a send would find no
  receiver and block for ever (\<open>None\<close>).\<close>

fun run_sync :: "outcome \<Rightarrow> stmt list \<Rightarrow> event list option" where
  "run_sync r [] = Some []"
| "run_sync r (Send c # ss) = None"
| "run_sync r (st # ss) = map_option (\<lambda>es. run_stmt r st @ es) (run_sync r ss)"

subsection \<open>The three cases of the select\<close>

definition spawn :: "nat \<Rightarrow> stmt list \<Rightarrow> sys \<Rightarrow> sys" where
  "spawn w p s = s\<lparr>goroutines := goroutines s @ [\<lparr>wake = w, prog = p\<rparr>]\<rparr>"

definition emit :: "event list \<Rightarrow> sys \<Rightarrow> sys" where
  "emit es s = s\<lparr>trace := trace s @ es\<rparr>"

definition case_fileWatch :: "extern \<Rightarrow> vars \<Rightarrow> EventInfo \<Rightarrow> sys \<Rightarrow> sys" where
  "case_fileWatch X V ei s0 =
     (let s = (if Verbose V then emit [Ev_log (Log_event_details ei)] s0 else s0);
          filePath = Path ei
      in case filepath_Rel X (absPath s) filePath of
           Inl err \<Rightarrow> emit [Ev_log (Log_rel_error filePath)] s
         | Inr relPath \<Rightarrow>
             if IgnoreFilePath X relPath then
               (if Verbose V then emit [Ev_log (Log_ignoring filePath)] s else s)
             else if watcherState s = waiting then
               emit [Ev_AfterFunc (100 * Millisecond) [Send initialDelayDone]]
                 (spawn (now s + 100 * Millisecond) [Send initialDelayDone]
                   (s\<lparr>watcherState := initialDelay\<rparr>))
             else if watcherState s = pushing then
               s\<lparr>watcherState := pushingAndGotEvent\<rparr>
             else s)"

definition go_doPush :: "vars \<Rightarrow> sys \<Rightarrow> sys" where
  "go_doPush V s =
     emit [Ev_go (doPush V False (Some pushDone))]
       (spawn (now s) (doPush V False (Some pushDone)) s)"

definition case_initialDelayDone :: "vars \<Rightarrow> sys \<Rightarrow> sys" where
  "case_initialDelayDone V s =
     go_doPush V (emit [Ev_log Log_change_detected] (s\<lparr>watcherState := pushing\<rparr>))"

definition case_pushDone :: "vars \<Rightarrow> sys \<Rightarrow> sys" where
  "case_pushDone V s =
     (if watcherState s = pushingAndGotEvent then
        go_doPush V (s\<lparr>watcherState := pushing\<rparr>)
      else
        emit [Ev_log Log_push_done] (s\<lparr>watcherState := waiting\<rparr>))"

subsection \<open>Scheduling\<close>

text \<open>
  One step of the whole program. \<open>Tick d\<close> lets \<open>d\<close> nanoseconds pass. \<open>FileEvent ei\<close>
  is the loop receiving \<open>ei\<close> on \<^verbatim>\<open>fileWatch\<close>. \<open>Recv i\<close> is the loop receiving what
  goroutine \<open>i\<close> sends: it is possible only when that goroutine has woken up and its
  next statement is a send. \<open>Step i r\<close> is goroutine \<open>i\<close> running its next statement
  when that is a call (\<open>r\<close> is how a \<^verbatim>\<open>push\<close> ends). A step that cannot happen is
  \<open>None\<close>. A goroutine with nothing left to run leaves the list.
\<close>

datatype label = Tick nat | FileEvent EventInfo | Recv nat | Step nat outcome

definition advance :: "nat \<Rightarrow> stmt list \<Rightarrow> goroutine list \<Rightarrow> goroutine list" where
  "advance i rest gs =
     (if rest = [] then take i gs @ drop (Suc i) gs
      else gs[i := (gs ! i)\<lparr>prog := rest\<rparr>])"

definition recv_chan :: "vars \<Rightarrow> chan \<Rightarrow> sys \<Rightarrow> sys" where
  "recv_chan V c s =
     (case c of initialDelayDone \<Rightarrow> case_initialDelayDone V s
              | pushDone \<Rightarrow> case_pushDone V s)"

fun exec1 :: "extern \<Rightarrow> vars \<Rightarrow> label \<Rightarrow> sys \<Rightarrow> sys option" where
  "exec1 X V (Tick d) s = Some (s\<lparr>now := now s + d\<rparr>)"
| "exec1 X V (FileEvent ei) s = Some (case_fileWatch X V ei s)"
| "exec1 X V (Recv i) s =
     (if i < length (goroutines s) \<and> wake (goroutines s ! i) \<le> now s then
        (case prog (goroutines s ! i) of
           Send c # rest \<Rightarrow>
             Some (recv_chan V c (s\<lparr>goroutines := advance i rest (goroutines s)\<rparr>))
         | _ \<Rightarrow> None)
      else None)"
| "exec1 X V (Step i r) s =
     (if i < length (goroutines s) \<and> wake (goroutines s ! i) \<le> now s then
        (case prog (goroutines s ! i) of
           [] \<Rightarrow> None
         | Send c # rest \<Rightarrow> None
         | st # rest \<Rightarrow>
             Some (emit (run_stmt r st) (s\<lparr>goroutines := advance i rest (goroutines s)\<rparr>)))
      else None)"

fun exec :: "extern \<Rightarrow> vars \<Rightarrow> label list \<Rightarrow> sys \<Rightarrow> sys option" where
  "exec X V [] s = Some s"
| "exec X V (l # ls) s =
     (case exec1 X V l s of None \<Rightarrow> None | Some s' \<Rightarrow> exec X V ls s')"

subsection \<open>Startup\<close>

text \<open>The action up to the loop: \<^verbatim>\<open>log.Fatal\<close> ends the process; the first push runs on
  the caller's goroutine, then a reload is sent, then the loop starts with
  \<^verbatim>\<open>watcherState\<close> at its initial value.\<close>

datatype halt = log_Fatal error | blocked

definition startup :: "extern \<Rightarrow> vars \<Rightarrow> outcome \<Rightarrow> halt + sys" where
  "startup X V r =
     (case filepath_Abs X (appPath V) of
        Inl err \<Rightarrow> Inl (log_Fatal err)
      | Inr root \<Rightarrow>
          (case notify_Watch X (path_Join X root ''...'') of
             Some err \<Rightarrow> Inl (log_Fatal err)
           | None \<Rightarrow>
               (case run_sync r (doPush V True None) of
                  None \<Rightarrow> Inl blocked
                | Some es \<Rightarrow>
                    Inr \<lparr>watcherState = waiting, absPath = root, now = 0, goroutines = [],
                         trace = [Ev_StartServer] @ es @ [Ev_SendReload]\<rparr>)))"

subsection \<open>Observations\<close>

fun is_push :: "stmt \<Rightarrow> bool" where
  "is_push (Call_push p nb w t l) = True"
| "is_push st = False"

text \<open>A push is in flight in a goroutine that still has its call of \<^verbatim>\<open>push\<close> to finish.\<close>

definition in_flight :: "sys \<Rightarrow> nat" where
  "in_flight s = length (filter (\<lambda>g. list_ex is_push (prog g)) (goroutines s))"

fun is_go :: "event \<Rightarrow> bool" where
  "is_go (Ev_go p) = True"
| "is_go e = False"

fun is_AfterFunc :: "event \<Rightarrow> bool" where
  "is_AfterFunc (Ev_AfterFunc d p) = True"
| "is_AfterFunc e = False"

text \<open>How many times \<^verbatim>\<open>go doPush\<close> has run, and how many timers were armed.\<close>

definition started :: "sys \<Rightarrow> nat" where
  "started s = length (filter is_go (trace s))"

definition armed :: "sys \<Rightarrow> nat" where
  "armed s = length (filter is_AfterFunc (trace s))"

text \<open>A notification the loop acts on: its path is relative to the watched root and
  \<^verbatim>\<open>IgnoreFilePath\<close> lets it through.\<close>

definition relevant :: "extern \<Rightarrow> string \<Rightarrow> EventInfo \<Rightarrow> bool" where
  "relevant X root ei =
     (case filepath_Rel X root (Path ei) of
        Inl err \<Rightarrow> False
      | Inr relPath \<Rightarrow> \<not> IgnoreFilePath X relPath)"

fun is_Recv :: "label \<Rightarrow> bool" where
  "is_Recv (Recv i) = True"
| "is_Recv l = False"

fun is_change :: "extern \<Rightarrow> string \<Rightarrow> label \<Rightarrow> bool" where
  "is_change X root (FileEvent ei) = relevant X root ei"
| "is_change X root l = False"

text \<open>The armed timers whose expiry the loop has not received yet.\<close>

definition timers :: "sys \<Rightarrow> goroutine list" where
  "timers s = filter (\<lambda>g. prog g = [Send initialDelayDone]) (goroutines s)"

text \<open>What is left of a change-triggered \<^verbatim>\<open>doPush\<close> while it runs: all of it, all but
  the call of \<^verbatim>\<open>push\<close>, or the final send.\<close>

definition push_phase :: "vars \<Rightarrow> stmt list \<Rightarrow> bool" where
  "push_phase V p =
     (p = doPush V False (Some pushDone) \<or> p = tl (doPush V False (Some pushDone))
      \<or> p = tl (tl (doPush V False (Some pushDone))))"

text \<open>The loop's variable and the live goroutines go together: nothing runs while
  waiting, one timer is pending during the initial delay, one \<^verbatim>\<open>doPush\<close> runs in the
  two pushing states.\<close>

definition loop_inv :: "vars \<Rightarrow> sys \<Rightarrow> bool" where
  "loop_inv V s =
     (case watcherState s of
        waiting \<Rightarrow> goroutines s = []
      | initialDelay \<Rightarrow> map prog (goroutines s) = [[Send initialDelayDone]]
      | pushing \<Rightarrow> (case map prog (goroutines s) of [p] \<Rightarrow> push_phase V p | _ \<Rightarrow> False)
      | pushingAndGotEvent \<Rightarrow>
          (case map prog (goroutines s) of [p] \<Rightarrow> push_phase V p | _ \<Rightarrow> False))"

text \<open>A change-triggered \<^verbatim>\<open>doPush\<close> is running and it is the only goroutine.\<close>

definition push_shape :: "vars \<Rightarrow> sys \<Rightarrow> bool" where
  "push_shape V s =
     ((watcherState s = pushing \<or> watcherState s = pushingAndGotEvent)
      \<and> (case map prog (goroutines s) of [p] \<Rightarrow> push_phase V p | _ \<Rightarrow> False))"

section \<open>Uploading to the frontend (appcatalog/frontendUpload.go)\<close>

subsection \<open>strings.TrimSpace\<close>

text \<open>
  A Go string is a sequence of bytes. \<^verbatim>\<open>strings.TrimSpace\<close> removes the leading and the
  trailing runes that \<^verbatim>\<open>unicode.IsSpace\<close> accepts. Those runes, in UTF-8: tab, line
  feed, vertical tab, form feed, carriage return, space, U+0085, U+00A0, U+1680,
  U+2000 to U+200A, U+2028, U+2029, U+202F, U+205F and U+3000. A string starts (ends)
  with such a rune exactly when it starts (ends) with these bytes.
\<close>

definition space_runes :: "nat list list" where
  "space_runes =
     [[0x09], [0x0A], [0x0B], [0x0C], [0x0D], [0x20], [0xC2, 0x85], [0xC2, 0xA0],
      [0xE1, 0x9A, 0x80],
      [0xE2, 0x80, 0x80], [0xE2, 0x80, 0x81], [0xE2, 0x80, 0x82], [0xE2, 0x80, 0x83],
      [0xE2, 0x80, 0x84], [0xE2, 0x80, 0x85], [0xE2, 0x80, 0x86], [0xE2, 0x80, 0x87],
      [0xE2, 0x80, 0x88], [0xE2, 0x80, 0x89], [0xE2, 0x80, 0x8A],
      [0xE2, 0x80, 0xA8], [0xE2, 0x80, 0xA9], [0xE2, 0x80, 0xAF], [0xE2, 0x81, 0x9F],
      [0xE3, 0x80, 0x80]]"

text \<open>The width in bytes of the white space rune a string starts with (ends with), 0 when
  there is none.\<close>

definition leading_space :: "string \<Rightarrow> nat" where
  "leading_space s =
     (case find (\<lambda>e. take (length e) (map of_char s) = e) space_runes of
        None \<Rightarrow> 0 | Some e \<Rightarrow> length e)"

definition trailing_space :: "string \<Rightarrow> nat" where
  "trailing_space s =
     (case find (\<lambda>e. length e \<le> length s \<and> drop (length s - length e) (map of_char s) = e)
             space_runes of
        None \<Rightarrow> 0 | Some e \<Rightarrow> length e)"

lemma find_holds: "find P xs = Some x \<Longrightarrow> P x"
  by (induction xs) (simp_all split: if_splits)

lemma leading_space_le: "leading_space s \<le> length s"
proof (cases "find (\<lambda>e. take (length e) (map of_char s) = e) space_runes")
  case None
  then show ?thesis by (simp add: leading_space_def)
next
  case (Some e)
  then have "take (length e) (map of_char s) = e" by (rule find_holds)
  from arg_cong [OF this, of length] have "min (length s) (length e) = length e" by simp
  then have "length e \<le> length s" by linarith
  with Some show ?thesis by (simp add: leading_space_def)
qed

lemma trailing_space_le: "trailing_space s \<le> length s"
proof (cases "find (\<lambda>e. length e \<le> length s \<and> drop (length s - length e) (map of_char s) = e)
                space_runes")
  case None
  then show ?thesis by (simp add: trailing_space_def)
next
  case (Some e)
  then have "length e \<le> length s \<and> drop (length s - length e) (map of_char s) = e"
    by (rule find_holds)
  with Some show ?thesis by (simp add: trailing_space_def)
qed

function TrimLeft :: "string \<Rightarrow> string" where
  "TrimLeft s = (if leading_space s = 0 then s else TrimLeft (drop (leading_space s) s))"
  by pat_completeness auto
termination
proof (relation "measure length")
  fix s :: string
  assume "leading_space s \<noteq> 0"
  with leading_space_le [of s] show "(drop (leading_space s) s, s) \<in> measure length"
    by simp
qed simp

function TrimRight :: "string \<Rightarrow> string" where
  "TrimRight s =
     (if trailing_space s = 0 then s else TrimRight (take (length s - trailing_space s) s))"
  by pat_completeness auto
termination
proof (relation "measure length")
  fix s :: string
  assume "trailing_space s \<noteq> 0"
  with trailing_space_le [of s]
  show "(take (length s - trailing_space s) s, s) \<in> measure length"
    by simp
qed simp

definition TrimSpace :: "string \<Rightarrow> string" where
  "TrimSpace s = TrimRight (TrimLeft s)"

subsection \<open>UploadToFrontend\<close>

text \<open>
  What the function calls: \<^verbatim>\<open>CreateMultiFileUploadRequest\<close> (of the package, in
  another file), \<^verbatim>\<open>client.Do\<close>, \<^verbatim>\<open>ioutil.ReadAll\<close> and \<^verbatim>\<open>json.Unmarshal\<close> into a
  \<^verbatim>\<open>map[string]map[string]string\<close>. Each either fails with an error or gives its
  result.
\<close>

record 'body response =
  StatusCode :: int
  Body :: 'body

record ('req, 'body) frontend =
  CreateMultiFileUploadRequest ::
    "string \<Rightarrow> (string \<rightharpoonup> string) \<Rightarrow> (string \<rightharpoonup> string) \<Rightarrow> bool \<Rightarrow> error + 'req"
  client_Do :: "'req \<Rightarrow> error + 'body response"
  ioutil_ReadAll :: "'body \<Rightarrow> error + string"
  json_Unmarshal :: "string \<Rightarrow> error + (string \<rightharpoonup> (string \<rightharpoonup> string))"

datatype uplog =
  Log_uploading string
| Log_creating_request
| Log_request_failed
| Log_request_created
| Log_call_failed
| Log_server_response int
| Log_read_failed
| Log_error error
| Log_uploaded

definition http_StatusOK :: int where
  "http_StatusOK = 200"

text \<open>Indexing a Go map gives the zero value for a missing key, also on a nil map: a nil
  inner map, then the empty string.\<close>

definition index_map :: "(string \<rightharpoonup> (string \<rightharpoonup> string)) \<Rightarrow> string \<Rightarrow> (string \<rightharpoonup> string)" where
  "index_map m k = (case m k of None \<Rightarrow> Map.empty | Some v \<Rightarrow> v)"

definition index_string :: "(string \<rightharpoonup> string) \<Rightarrow> string \<Rightarrow> string" where
  "index_string m k = (case m k of None \<Rightarrow> [] | Some v \<Rightarrow> v)"

text \<open>The result is the pair \<^verbatim>\<open>(pollURI, err)\<close>, \<open>None\<close> for a nil error, and the lines
  logged.\<close>

definition UploadToFrontend ::
  "('req, 'body) frontend \<Rightarrow> string \<Rightarrow> string \<Rightarrow> string \<Rightarrow> string \<Rightarrow> bool
     \<Rightarrow> (string \<times> error option) \<times> uplog list" where
  "UploadToFrontend W uploadURI zapFile appName sessionID verbose =
     (let files = [''file'' \<mapsto> zapFile];
          params = [''name'' \<mapsto> appName];
          log0 = (if verbose then [Log_uploading uploadURI, Log_creating_request] else [])
      in case CreateMultiFileUploadRequest W uploadURI files params verbose of
           Inl err \<Rightarrow> (([], Some err), log0 @ [Log_request_failed])
         | Inr request \<Rightarrow>
             (let log1 = log0 @ (if verbose then [Log_request_created] else [])
              in case client_Do W request of
                   Inl err \<Rightarrow> (([], Some err), log1 @ [Log_call_failed])
                 | Inr response \<Rightarrow>
                     (let log2 = log1 @ (if verbose then [Log_server_response (StatusCode response)]
                                         else [])
                      in if StatusCode response \<noteq> http_StatusOK then
                           (([], Some (Errorf ''Uploading failed, the frontend returned status code %v''
                                         [StatusCode response])), log2)
                         else
                           (case ioutil_ReadAll W (Body response) of
                              Inl err \<Rightarrow> (([], Some err), log2 @ [Log_read_failed])
                            | Inr responseBody \<Rightarrow>
                                (case json_Unmarshal W responseBody of
                                   Inl err \<Rightarrow>
                                     (([], Some err), log2 @ (if verbose then [Log_error err] else []))
                                 | Inr responseObject \<Rightarrow>
                                     (let progressUri =
                                            index_string (index_map responseObject ''links'') ''progress''
                                      in if length (TrimSpace progressUri) = 0 then
                                           (([], Some (Errorf ''Uploading failed, the app catalog did not return a valid response'' [])), log2)
                                         else
                                           ((progressUri, None), log2 @ [Log_uploaded])))))))"

section \<open>A sample session\<close>

definition sample_extern :: extern where
  "sample_extern =
     \<lparr>filepath_Abs = (\<lambda>p. if p = [] then Inl (Error ''getwd'') else Inr (''/app'')),
      path_Join = (\<lambda>a b. a @ ''/'' @ b),
      notify_Watch = (\<lambda>p. None),
      filepath_Rel = (\<lambda>root p. if take (length root) p = root then Inr (drop (Suc (length root)) p)
                                 else Inl (Error ''Rel'')),
      IgnoreFilePath = (\<lambda>p. take 4 p = ''.git'')\<rparr>"

definition sample_vars :: vars where
  "sample_vars =
     \<lparr>appPath = ''.'', noBrowser = True, timeout = 10, localFrontend = False, Verbose = False\<rparr>"

definition idle :: sys where
  "idle = \<lparr>watcherState = waiting, absPath = ''/app'', now = 0, goroutines = [], trace = []\<rparr>"

definition saved :: EventInfo where
  "saved = \<lparr>Event = 2, Path = ''/app/ui.js''\<rparr>"

definition vcs :: EventInfo where
  "vcs = \<lparr>Event = 2, Path = ''/app/.git/index''\<rparr>"

text \<open>A push that a change has just started, the state right after startup, and a
  frontend that answers with a progress link.\<close>

definition mid_push :: sys where
  "mid_push =
     \<lparr>watcherState = pushing, absPath = ''/app'', now = 7,
      goroutines = [\<lparr>wake = 7, prog = doPush sample_vars False (Some pushDone)\<rparr>], trace = []\<rparr>"

definition started_up :: sys where
  "started_up =
     \<lparr>watcherState = waiting, absPath = ''/app'', now = 0, goroutines = [],
      trace = [Ev_StartServer, Ev_push ''.'' False 180 10 False Succeeded, Ev_SendReload]\<rparr>"

definition sample_frontend :: "(unit, string) frontend" where
  "sample_frontend =
     \<lparr>CreateMultiFileUploadRequest = (\<lambda>uri files params v. Inr ()),
      client_Do = (\<lambda>request. Inr \<lparr>StatusCode = 200, Body = ''body''\<rparr>),
      ioutil_ReadAll = (\<lambda>body. Inr body),
      json_Unmarshal = (\<lambda>body. Inr [''links'' \<mapsto> [''progress'' \<mapsto> '' http://f/p'']])\<rparr>"

section \<open>Properties of the watcher\<close>

lemma emit_simps [simp]:
  "watcherState (emit es s) = watcherState s"
  "absPath (emit es s) = absPath s"
  "now (emit es s) = now s"
  "goroutines (emit es s) = goroutines s"
  "trace (emit es s) = trace s @ es"
  by (simp_all add: emit_def)

lemma spawn_simps [simp]:
  "watcherState (spawn w p s) = watcherState s"
  "absPath (spawn w p s) = absPath s"
  "now (spawn w p s) = now s"
  "goroutines (spawn w p s) = goroutines s @ [\<lparr>wake = w, prog = p\<rparr>]"
  "trace (spawn w p s) = trace s"
  by (simp_all add: spawn_def)

lemma go_doPush_simps [simp]:
  "watcherState (go_doPush V s) = watcherState s"
  "absPath (go_doPush V s) = absPath s"
  "now (go_doPush V s) = now s"
  "goroutines (go_doPush V s) =
     goroutines s @ [\<lparr>wake = now s, prog = doPush V False (Some pushDone)\<rparr>]"
  "trace (go_doPush V s) = trace s @ [Ev_go (doPush V False (Some pushDone))]"
  by (simp_all add: go_doPush_def)

lemma doPush_change:
  "doPush V False (Some c) =
     [Call_push (appPath V) True 180 (timeout V) (localFrontend V), Call_SendReload, Send c]"
  by (simp add: doPush_def)

lemma fileWatch_relevant:
  assumes "relevant X (absPath s) ei"
  shows "watcherState (case_fileWatch X V ei s) =
           (case watcherState s of waiting \<Rightarrow> initialDelay | initialDelay \<Rightarrow> initialDelay
            | pushing \<Rightarrow> pushingAndGotEvent | pushingAndGotEvent \<Rightarrow> pushingAndGotEvent)"
    and "goroutines (case_fileWatch X V ei s) =
           (if watcherState s = waiting
            then goroutines s @ [\<lparr>wake = now s + 100 * Millisecond, prog = [Send initialDelayDone]\<rparr>]
            else goroutines s)"
    and "armed (case_fileWatch X V ei s) =
           (if watcherState s = waiting then armed s + 1 else armed s)"
    and "started (case_fileWatch X V ei s) = started s"
    and "now (case_fileWatch X V ei s) = now s"
    and "absPath (case_fileWatch X V ei s) = absPath s"
  using assms
  by (auto simp: case_fileWatch_def relevant_def Let_def armed_def started_def
      split: sum.splits WatcherState.splits)

lemma fileWatch_irrelevant:
  assumes "\<not> relevant X (absPath s) ei"
  shows "watcherState (case_fileWatch X V ei s) = watcherState s"
    and "goroutines (case_fileWatch X V ei s) = goroutines s"
    and "armed (case_fileWatch X V ei s) = armed s"
    and "started (case_fileWatch X V ei s) = started s"
    and "now (case_fileWatch X V ei s) = now s"
    and "absPath (case_fileWatch X V ei s) = absPath s"
    and "trace (case_fileWatch X V ei s) =
           trace s @ (if Verbose V then [Ev_log (Log_event_details ei)] else [])
             @ (case filepath_Rel X (absPath s) (Path ei) of
                  Inl err \<Rightarrow> [Ev_log (Log_rel_error (Path ei))]
                | Inr relPath \<Rightarrow> if Verbose V then [Ev_log (Log_ignoring (Path ei))] else [])"
  using assms
  by (auto simp: case_fileWatch_def relevant_def Let_def armed_def started_def
      split: sum.splits)

lemma timer_expiry:
  assumes "goroutines s' = gs @ [\<lparr>wake = w, prog = [Send initialDelayDone]\<rparr>]"
  shows "exec X V [Tick d, Recv (length gs)] s' =
           (if w \<le> now s' + d
            then Some (case_initialDelayDone V (s'\<lparr>now := now s' + d, goroutines := gs\<rparr>))
            else None)"
  using assms by (simp add: advance_def recv_chan_def)

subsection \<open>One input at a time\<close>

text \<open>
  C1. The loop receives a change notification that is relevant (its path is relative to
  the watched root and is not ignored). From \<open>waiting\<close> the state becomes
  \<open>initialDelay\<close> and one timer is armed: a goroutine that wakes 100 ms later and whose
  only statement is the send on \<^verbatim>\<open>initialDelayDone\<close>, so that once \<open>d\<close> nanoseconds
  have passed the loop can receive from it exactly when \<open>d\<close> is at least 100 ms, which
  runs the debounce-expired case and ends the timer. From \<open>initialDelay\<close> nothing
  changes. From \<open>pushing\<close> the state becomes \<open>pushingAndGotEvent\<close>, and from
  \<open>pushingAndGotEvent\<close> nothing changes; no timer is armed in these three states.
\<close>

theorem change_notification:
  assumes "relevant X (absPath s) ei"
  shows "\<exists>s'. exec1 X V (FileEvent ei) s = Some s' \<and>
     (case watcherState s of
        waiting \<Rightarrow>
          watcherState s' = initialDelay
          \<and> goroutines s' =
              goroutines s @ [\<lparr>wake = now s + 100 * Millisecond, prog = [Send initialDelayDone]\<rparr>]
          \<and> armed s' = armed s + 1
          \<and> (\<forall>d. exec X V [Tick d, Recv (length (goroutines s))] s' =
                (if 100 * Millisecond \<le> d
                 then Some (case_initialDelayDone V
                        (s'\<lparr>now := now s + d, goroutines := goroutines s\<rparr>))
                 else None))
      | initialDelay \<Rightarrow>
          watcherState s' = initialDelay \<and> goroutines s' = goroutines s \<and> armed s' = armed s
      | pushing \<Rightarrow>
          watcherState s' = pushingAndGotEvent \<and> goroutines s' = goroutines s
          \<and> armed s' = armed s
      | pushingAndGotEvent \<Rightarrow>
          watcherState s' = pushingAndGotEvent \<and> goroutines s' = goroutines s
          \<and> armed s' = armed s)"
proof -
  let ?s' = "case_fileWatch X V ei s"
  note fw = fileWatch_relevant [OF assms, of V]
  have run: "exec1 X V (FileEvent ei) s = Some ?s'" by simp
  show ?thesis
  proof (cases "watcherState s")
    case waiting
    have ex: "\<forall>d. exec X V [Tick d, Recv (length (goroutines s))] ?s' =
            (if 100 * Millisecond \<le> d
             then Some (case_initialDelayDone V (?s'\<lparr>now := now s + d, goroutines := goroutines s\<rparr>))
             else None)"
      using timer_expiry [of ?s' "goroutines s" "now s + 100 * Millisecond" X V] fw waiting
      by simp
    from waiting fw have props: "watcherState ?s' = initialDelay
        \<and> goroutines ?s' =
            goroutines s @ [\<lparr>wake = now s + 100 * Millisecond, prog = [Send initialDelayDone]\<rparr>]
        \<and> armed ?s' = armed s + 1"
      by simp
    show ?thesis
      by (simp only: waiting WatcherState.case) (intro exI [of _ ?s'] conjI run ex, insert props, blast+)
  next
    case initialDelay
    with fw run show ?thesis by simp
  next
    case pushing
    with fw run show ?thesis by simp
  next
    case pushingAndGotEvent
    with fw run show ?thesis by simp
  qed
qed

text \<open>
  C2. The loop receives the push-completed signal, the last statement of a \<^verbatim>\<open>doPush\<close>
  goroutine, which then ends. From \<open>pushingAndGotEvent\<close> the state becomes \<open>pushing\<close>
  and one new \<^verbatim>\<open>doPush\<close> goroutine is started, awake at once (no timer is armed) and
  with all of \<^verbatim>\<open>doPush\<close> still to run. From any other state the state becomes
  \<open>waiting\<close> and no goroutine is started.
\<close>

theorem push_completed:
  assumes "i < length (goroutines s)" "wake (goroutines s ! i) \<le> now s"
    "prog (goroutines s ! i) = [Send pushDone]"
  shows "\<exists>s'. exec1 X V (Recv i) s = Some s' \<and>
     (if watcherState s = pushingAndGotEvent then
        watcherState s' = pushing
        \<and> goroutines s' =
            take i (goroutines s) @ drop (Suc i) (goroutines s)
              @ [\<lparr>wake = now s, prog = doPush V False (Some pushDone)\<rparr>]
        \<and> started s' = started s + 1 \<and> armed s' = armed s \<and> now s' = now s
      else
        watcherState s' = waiting
        \<and> goroutines s' = take i (goroutines s) @ drop (Suc i) (goroutines s)
        \<and> started s' = started s \<and> armed s' = armed s)"
  using assms
  by (simp add: advance_def recv_chan_def case_pushDone_def started_def armed_def)

text \<open>
  C9. A change notification whose path cannot be made relative to the watched root, or
  whose relative path \<^verbatim>\<open>IgnoreFilePath\<close> accepts, leaves \<^verbatim>\<open>watcherState\<close> and the
  goroutines as they are: no timer is armed and no push is started. The first kind is
  always logged, the second kind only when \<^verbatim>\<open>Verbose\<close> is set (after the line with the
  event's details that \<^verbatim>\<open>Verbose\<close> logs for every notification).
\<close>

theorem irrelevant_notification:
  assumes "(\<exists>err. filepath_Rel X (absPath s) (Path ei) = Inl err)
     \<or> (\<exists>relPath. filepath_Rel X (absPath s) (Path ei) = Inr relPath \<and> IgnoreFilePath X relPath)"
  shows "\<exists>s'. exec1 X V (FileEvent ei) s = Some s'
     \<and> watcherState s' = watcherState s \<and> goroutines s' = goroutines s
     \<and> armed s' = armed s \<and> started s' = started s
     \<and> trace s' =
          trace s @ (if Verbose V then [Ev_log (Log_event_details ei)] else [])
            @ (case filepath_Rel X (absPath s) (Path ei) of
                 Inl err \<Rightarrow> [Ev_log (Log_rel_error (Path ei))]
               | Inr relPath \<Rightarrow> if Verbose V then [Ev_log (Log_ignoring (Path ei))] else [])"
proof -
  from assms have "\<not> relevant X (absPath s) ei"
    by (auto simp: relevant_def)
  from fileWatch_irrelevant [OF this, of V] show ?thesis by simp
qed

lemma relevant_saved: "relevant sample_extern ''/app'' saved"
  by (simp add: relevant_def sample_extern_def saved_def)

lemma not_relevant_vcs: "\<not> relevant sample_extern ''/app'' vcs"
  by (simp add: relevant_def sample_extern_def vcs_def)

text \<open>A saved file while the watcher is idle.\<close>

theorem change_notification_witness:
  "relevant sample_extern (absPath idle) saved
   \<and> (\<exists>s'. exec1 sample_extern sample_vars (FileEvent saved) idle = Some s'
         \<and> watcherState s' = initialDelay
         \<and> goroutines s' = [\<lparr>wake = 100000000, prog = [Send initialDelayDone]\<rparr>]
         \<and> armed s' = 1)"
  using change_notification [of sample_extern idle saved sample_vars] relevant_saved
  by (simp add: idle_def armed_def Millisecond_def)

text \<open>A push ends after a change arrived during it.\<close>

theorem push_completed_witness:
  "(\<exists>s'. exec1 sample_extern sample_vars (Recv 0)
            (idle\<lparr>watcherState := pushingAndGotEvent,
                   goroutines := [\<lparr>wake = 0, prog = [Send pushDone]\<rparr>]\<rparr>) = Some s'
         \<and> watcherState s' = pushing
         \<and> goroutines s' = [\<lparr>wake = 0, prog = doPush sample_vars False (Some pushDone)\<rparr>]
         \<and> started s' = 1)"
  using push_completed [of 0 "idle\<lparr>watcherState := pushingAndGotEvent,
                   goroutines := [\<lparr>wake = 0, prog = [Send pushDone]\<rparr>]\<rparr>" sample_extern sample_vars]
  by (simp add: idle_def started_def)

text \<open>A change under \<^verbatim>\<open>.git\<close> while the watcher is idle.\<close>

theorem irrelevant_notification_witness:
  "filepath_Rel sample_extern (absPath idle) (Path vcs) = Inr ''.git/index''
   \<and> IgnoreFilePath sample_extern ''.git/index''
   \<and> (\<exists>s'. exec1 sample_extern sample_vars (FileEvent vcs) idle = Some s'
         \<and> watcherState s' = waiting \<and> goroutines s' = [] \<and> armed s' = 0 \<and> trace s' = [])"
  using irrelevant_notification [of sample_extern idle vcs sample_vars]
  by (simp add: idle_def armed_def sample_extern_def vcs_def sample_vars_def)

subsection \<open>The loop's state and the goroutines\<close>

lemma loop_inv_cases:
  "loop_inv V s \<longleftrightarrow>
     (watcherState s = waiting \<and> goroutines s = [])
   \<or> (watcherState s = initialDelay \<and> (\<exists>g. goroutines s = [g] \<and> prog g = [Send initialDelayDone]))
   \<or> ((watcherState s = pushing \<or> watcherState s = pushingAndGotEvent)
        \<and> (\<exists>g. goroutines s = [g] \<and> push_phase V (prog g)))"
  unfolding loop_inv_def
  by (cases "watcherState s"; cases "goroutines s"; cases "tl (goroutines s)")
     (auto split: list.splits)

lemma push_phase_iff:
  "push_phase V p \<longleftrightarrow>
     p = [Call_push (appPath V) True 180 (timeout V) (localFrontend V), Call_SendReload, Send pushDone]
     \<or> p = [Call_SendReload, Send pushDone] \<or> p = [Send pushDone]"
  by (simp add: push_phase_def doPush_change)

lemma inv_fileWatch: "loop_inv V s \<Longrightarrow> loop_inv V (case_fileWatch X V ei s)"
  unfolding loop_inv_cases
  by (auto simp: case_fileWatch_def Let_def split: sum.splits)

lemma inv_exec1:
  assumes "loop_inv V s" "exec1 X V l s = Some s'"
  shows "loop_inv V s'"
proof (cases l)
  case (Tick d)
  with assms show ?thesis unfolding loop_inv_cases by auto
next
  case (FileEvent ei)
  with assms show ?thesis by (auto simp: inv_fileWatch)
next
  case (Recv i)
  with assms show ?thesis
    unfolding loop_inv_cases
    by (auto simp: push_phase_iff advance_def recv_chan_def case_initialDelayDone_def
        case_pushDone_def doPush_change split: if_splits list.splits stmt.splits chan.splits)
next
  case (Step i r)
  with assms show ?thesis
    unfolding loop_inv_cases
    by (auto simp: push_phase_iff advance_def split: if_splits list.splits stmt.splits)
qed

lemma inv_exec: "loop_inv V s \<Longrightarrow> exec X V ls s = Some s' \<Longrightarrow> loop_inv V s'"
  by (induction ls arbitrary: s) (auto split: option.splits dest: inv_exec1)

lemma inv_startup: "startup X V r = Inr s \<Longrightarrow> loop_inv V s"
  by (auto simp: startup_def loop_inv_def split: sum.splits option.splits)

subsection \<open>Runs in which the loop receives from no goroutine\<close>

lemma exec_append:
  "exec X V (xs @ ys) s = (case exec X V xs s of None \<Rightarrow> None | Some s' \<Rightarrow> exec X V ys s')"
  by (induction xs arbitrary: s) (auto split: option.splits)

lemma delay_step:
  assumes "watcherState s = initialDelay" "goroutines s = [T]" "prog T = [Send initialDelayDone]"
    "\<not> is_Recv l" "exec1 X V l s = Some s'"
  shows "watcherState s' = initialDelay \<and> goroutines s' = [T] \<and> armed s' = armed s
     \<and> started s' = started s \<and> now s \<le> now s'"
proof (cases l)
  case (Tick d)
  with assms show ?thesis by (auto simp: armed_def started_def)
next
  case (FileEvent ei)
  with assms fileWatch_relevant [of X s ei V] fileWatch_irrelevant [of X s ei V]
  show ?thesis by (cases "relevant X (absPath s) ei") auto
next
  case (Recv i)
  with assms show ?thesis by simp
next
  case (Step i r)
  with assms show ?thesis by (auto split: if_splits)
qed

lemma delay_exec:
  assumes "watcherState s = initialDelay" "goroutines s = [T]" "prog T = [Send initialDelayDone]"
    "\<forall>l\<in>set ls. \<not> is_Recv l" "exec X V ls s = Some s'"
  shows "watcherState s' = initialDelay \<and> goroutines s' = [T] \<and> armed s' = armed s
     \<and> started s' = started s \<and> now s \<le> now s'"
  using assms
proof (induction ls arbitrary: s)
  case Nil
  then show ?case by simp
next
  case (Cons l ls)
  from Cons.prems obtain s1 where s1: "exec1 X V l s = Some s1" "exec X V ls s1 = Some s'"
    by (auto split: option.splits)
  from Cons.prems s1 delay_step [of s T l X V s1]
  have d: "watcherState s1 = initialDelay \<and> goroutines s1 = [T] \<and> armed s1 = armed s
     \<and> started s1 = started s \<and> now s \<le> now s1" by simp
  with Cons.IH [of s1] Cons.prems s1 show ?case by auto
qed

lemma push_shape_iff:
  "push_shape V s \<longleftrightarrow>
     (watcherState s = pushing \<or> watcherState s = pushingAndGotEvent)
     \<and> (\<exists>g. goroutines s = [g] \<and> push_phase V (prog g))"
  unfolding push_shape_def
  by (cases "goroutines s"; cases "tl (goroutines s)") (auto split: list.splits)

lemma push_step:
  assumes "push_shape V s" "\<not> is_Recv l" "exec1 X V l s = Some s'"
  shows "push_shape V s' \<and> armed s' = armed s \<and> started s' = started s
     \<and> absPath s' = absPath s
     \<and> (watcherState s' = pushingAndGotEvent \<longleftrightarrow>
          watcherState s = pushingAndGotEvent \<or> is_change X (absPath s) l)"
proof (cases l)
  case (Tick d)
  with assms show ?thesis by (auto simp: armed_def started_def push_shape_iff)
next
  case (FileEvent ei)
  with assms fileWatch_relevant [of X s ei V] fileWatch_irrelevant [of X s ei V]
  show ?thesis by (cases "relevant X (absPath s) ei") (auto simp: push_shape_iff)
next
  case (Recv i)
  with assms show ?thesis by simp
next
  case (Step i r)
  with assms show ?thesis
    by (auto simp: push_shape_iff push_phase_iff advance_def armed_def started_def
        split: if_splits list.splits stmt.splits)
qed

lemma push_exec:
  assumes "push_shape V s" "\<forall>l\<in>set ls. \<not> is_Recv l" "exec X V ls s = Some s'"
  shows "push_shape V s' \<and> armed s' = armed s \<and> started s' = started s
     \<and> absPath s' = absPath s
     \<and> (watcherState s' = pushingAndGotEvent \<longleftrightarrow>
          watcherState s = pushingAndGotEvent \<or> (\<exists>l\<in>set ls. is_change X (absPath s) l))"
  using assms
proof (induction ls arbitrary: s)
  case Nil
  then show ?case by simp
next
  case (Cons l ls)
  from Cons.prems obtain s1 where s1: "exec1 X V l s = Some s1" "exec X V ls s1 = Some s'"
    by (auto split: option.splits)
  from Cons.prems s1 push_step [of V s l X s1]
  have d: "push_shape V s1 \<and> armed s1 = armed s \<and> started s1 = started s
     \<and> absPath s1 = absPath s
     \<and> (watcherState s1 = pushingAndGotEvent \<longleftrightarrow>
          watcherState s = pushingAndGotEvent \<or> is_change X (absPath s) l)" by simp
  with Cons.IH [of s1] Cons.prems s1 show ?case by auto
qed

lemma push_done:
  assumes "push_shape V s" "exec1 X V (Recv i) s = Some s'"
  shows "if watcherState s = pushingAndGotEvent
         then watcherState s' = pushing
              \<and> goroutines s' = [\<lparr>wake = now s', prog = doPush V False (Some pushDone)\<rparr>]
              \<and> started s' = started s + 1 \<and> armed s' = armed s \<and> absPath s' = absPath s
         else watcherState s' = waiting \<and> goroutines s' = []
              \<and> started s' = started s \<and> armed s' = armed s"
  using assms
  by (auto simp: push_shape_iff push_phase_iff advance_def recv_chan_def case_pushDone_def
      started_def armed_def split: if_splits list.splits stmt.splits chan.splits)

lemma idle_completion:
  assumes "push_shape V s" "watcherState s = pushing"
    "\<forall>l\<in>set ls. \<not> is_Recv l \<and> \<not> is_change X (absPath s) l"
    "exec X V (ls @ [Recv j]) s = Some s'"
  shows "watcherState s' = waiting \<and> goroutines s' = [] \<and> started s' = started s
     \<and> armed s' = armed s"
proof -
  from assms(4) obtain s1 where s1: "exec X V ls s = Some s1" "exec1 X V (Recv j) s1 = Some s'"
    by (auto simp: exec_append split: option.splits)
  from push_exec [OF assms(1) _ s1(1)] assms(2,3)
  have "push_shape V s1 \<and> armed s1 = armed s \<and> started s1 = started s
      \<and> watcherState s1 \<noteq> pushingAndGotEvent"
    by auto
  with push_done [of V s1 X j s'] s1(2) show ?thesis by simp
qed

subsection \<open>Coalescing\<close>

text \<open>
  C3. One \<^verbatim>\<open>doPush\<close> is running (state \<open>pushing\<close>, at any point of its run). While the
  loop does not receive its completion, time passes, the push goes on and notifications
  arrive, M of them relevant, M at least 1. Before the completion is received the
  state is \<open>pushingAndGotEvent\<close>, the running push is still the only goroutine and no
  push has been started: the follow-up is held by the state alone. When the
  completion is received, exactly one \<^verbatim>\<open>doPush\<close> is started, whatever M is, and the
  state is \<open>pushing\<close>. If no relevant notification arrives during that follow-up, its
  completion gives \<open>waiting\<close> with no goroutine left and still one push started in all.
\<close>

theorem mid_push_coalescing:
  assumes "watcherState s = pushing" "goroutines s = [g]" "push_phase V (prog g)"
    and "\<forall>l\<in>set ls. \<not> is_Recv l"
    and "1 \<le> length (filter (is_change X (absPath s)) ls)"
    and "exec X V (ls @ [Recv i]) s = Some s2"
  shows "(\<exists>s1. exec X V ls s = Some s1 \<and> watcherState s1 = pushingAndGotEvent
            \<and> length (goroutines s1) = 1 \<and> started s1 = started s)
     \<and> watcherState s2 = pushing
     \<and> goroutines s2 = [\<lparr>wake = now s2, prog = doPush V False (Some pushDone)\<rparr>]
     \<and> started s2 = started s + 1
     \<and> (\<forall>ls' j s3.
           (\<forall>l\<in>set ls'. \<not> is_Recv l \<and> \<not> is_change X (absPath s) l)
           \<and> exec X V (ls' @ [Recv j]) s2 = Some s3
           \<longrightarrow> watcherState s3 = waiting \<and> goroutines s3 = [] \<and> started s3 = started s + 1)"
proof -
  from assms(1-3) have shape: "push_shape V s" by (simp add: push_shape_iff)
  from assms(6) obtain s1 where s1: "exec X V ls s = Some s1" "exec1 X V (Recv i) s1 = Some s2"
    by (auto simp: exec_append split: option.splits)
  from assms(5) have "filter (is_change X (absPath s)) ls \<noteq> []" by auto
  then have ex: "\<exists>l\<in>set ls. is_change X (absPath s) l"
    by (simp add: filter_empty_conv)
  from push_exec [OF shape assms(4) s1(1)] ex
  have mid: "push_shape V s1" "started s1 = started s" "absPath s1 = absPath s"
    "watcherState s1 = pushingAndGotEvent"
    by auto
  from push_done [OF mid(1) s1(2)] mid
  have fin: "watcherState s2 = pushing"
    "goroutines s2 = [\<lparr>wake = now s2, prog = doPush V False (Some pushDone)\<rparr>]"
    "started s2 = started s + 1" "absPath s2 = absPath s"
    by simp_all
  from fin have shape2: "push_shape V s2" by (simp add: push_shape_iff push_phase_def)
  have after: "watcherState s3 = waiting \<and> goroutines s3 = [] \<and> started s3 = started s + 1"
    if "\<forall>l\<in>set ls'. \<not> is_Recv l \<and> \<not> is_change X (absPath s) l"
      and "exec X V (ls' @ [Recv j]) s2 = Some s3" for ls' j s3
    using idle_completion [OF shape2 fin(1) _ that(2)] that(1) fin by simp
  from mid have "length (goroutines s1) = 1" by (auto simp: push_shape_iff)
  with s1 mid fin after show ?thesis by blast
qed

text \<open>
  C4. The watcher is idle (state \<open>waiting\<close>, no goroutine) and a relevant notification
  arrives, followed by any notifications and any passing of time before the loop
  receives from the timer (\<open>now\<close> counts nanoseconds, so this covers every burst
  inside the 100 ms window). Then the state is \<open>initialDelay\<close>; exactly one timer
  was armed and it is the only goroutine, with its deadline still 100 ms after the
  first notification; no push has been started. While less than 100 ms have passed
  the loop cannot receive the expiry, and once they have passed, receiving it starts
  exactly one push. If nothing relevant arrives during that push, its completion
  gives \<open>waiting\<close>, with one push started and one timer armed in all.
\<close>

theorem debounce_absorption:
  assumes "watcherState s = waiting" "goroutines s = []" "relevant X (absPath s) e1"
    and "\<forall>l\<in>set ls. \<not> is_Recv l"
    and "exec X V (FileEvent e1 # ls) s = Some s2"
  shows "watcherState s2 = initialDelay
     \<and> goroutines s2 = [\<lparr>wake = now s + 100 * Millisecond, prog = [Send initialDelayDone]\<rparr>]
     \<and> armed s2 = armed s + 1
     \<and> started s2 = started s
     \<and> (now s2 < now s + 100 * Millisecond \<longrightarrow> (\<forall>i. exec1 X V (Recv i) s2 = None))
     \<and> (now s + 100 * Millisecond \<le> now s2 \<longrightarrow>
          (\<exists>s3. exec1 X V (Recv 0) s2 = Some s3
             \<and> watcherState s3 = pushing
             \<and> goroutines s3 = [\<lparr>wake = now s2, prog = doPush V False (Some pushDone)\<rparr>]
             \<and> started s3 = started s + 1
             \<and> armed s3 = armed s + 1
             \<and> (\<forall>ls' j s4.
                   (\<forall>l\<in>set ls'. \<not> is_Recv l \<and> \<not> is_change X (absPath s) l)
                   \<and> exec X V (ls' @ [Recv j]) s3 = Some s4
                   \<longrightarrow> watcherState s4 = waiting \<and> goroutines s4 = []
                       \<and> started s4 = started s + 1 \<and> armed s4 = armed s + 1)))"
proof -
  let ?T = "\<lparr>wake = now s + 100 * Millisecond, prog = [Send initialDelayDone]\<rparr>"
  let ?s1 = "case_fileWatch X V e1 s"
  from assms(5) have run: "exec X V ls ?s1 = Some s2" by simp
  note fw = fileWatch_relevant [OF assms(3), of V]
  from fw assms(1,2) have s1: "watcherState ?s1 = initialDelay" "goroutines ?s1 = [?T]"
    "armed ?s1 = armed s + 1" "started ?s1 = started s" "now ?s1 = now s"
    "absPath ?s1 = absPath s"
    by simp_all
  from delay_exec [OF s1(1,2) _ assms(4) run] s1
  have s2: "watcherState s2 = initialDelay" "goroutines s2 = [?T]" "armed s2 = armed s + 1"
    "started s2 = started s" "now s \<le> now s2"
    by simp_all
  have early: "\<forall>i. exec1 X V (Recv i) s2 = None" if "now s2 < now s + 100 * Millisecond"
    using that s2 by (auto simp: less_Suc0)
  let ?s3 = "case_initialDelayDone V (s2\<lparr>goroutines := []\<rparr>)"
  have late: "exec1 X V (Recv 0) s2 = Some ?s3" if "now s + 100 * Millisecond \<le> now s2"
    using that s2 by (simp add: advance_def recv_chan_def)
  have s3: "watcherState ?s3 = pushing"
    "goroutines ?s3 = [\<lparr>wake = now s2, prog = doPush V False (Some pushDone)\<rparr>]"
    "started ?s3 = started s + 1" "armed ?s3 = armed s + 1"
    using s2 by (simp_all add: case_initialDelayDone_def started_def armed_def)
  from s3 have shape3: "push_shape V ?s3" by (simp add: push_shape_iff push_phase_def)
  have abs3: "absPath ?s3 = absPath s2" by (simp add: case_initialDelayDone_def)
  have abs2: "absPath s2 = absPath s"
    using run s1(6)
  proof (induction ls arbitrary: s2 rule: rev_induct)
    case Nil
    then show ?case by simp
  next
    case (snoc l ls)
    then obtain m where m: "exec X V ls ?s1 = Some m" "exec1 X V l m = Some s2"
      by (auto simp: exec_append split: option.splits)
    from snoc.IH [OF m(1)] snoc.prems have "absPath m = absPath s" by simp
    moreover from m(2) have "absPath s2 = absPath m"
      by (cases l)
         (auto simp: case_fileWatch_def Let_def recv_chan_def case_initialDelayDone_def
           case_pushDone_def split: if_splits list.splits stmt.splits sum.splits chan.splits)
    ultimately show ?case by simp
  qed
  have after: "watcherState s4 = waiting \<and> goroutines s4 = []
       \<and> started s4 = started s + 1 \<and> armed s4 = armed s + 1"
    if "\<forall>l\<in>set ls'. \<not> is_Recv l \<and> \<not> is_change X (absPath s) l"
      and "exec X V (ls' @ [Recv j]) ?s3 = Some s4" for ls' j s4
    using idle_completion [OF shape3 s3(1) _ that(2)] that(1) s3 abs3 abs2 by simp
  from s2 early late s3 after show ?thesis by blast
qed

subsection \<open>Every execution from startup\<close>

lemma inv_in_flight: "loop_inv V s \<Longrightarrow> length (goroutines s) \<le> 1 \<and> in_flight s \<le> 1"
  unfolding loop_inv_cases by (auto simp: in_flight_def)

lemma inv_timers:
  "loop_inv V s \<Longrightarrow> length (timers s) \<le> 1 \<and> (timers s \<noteq> [] \<longrightarrow> watcherState s = initialDelay)"
  unfolding loop_inv_cases by (auto simp: timers_def push_phase_iff)

lemma startup_state:
  assumes "startup X V r = Inr s0"
  shows "watcherState s0 = waiting \<and> goroutines s0 = []
     \<and> trace s0 = [Ev_StartServer, Ev_push (appPath V) False 180 (timeout V) (localFrontend V) r,
                    Ev_SendReload]"
  using assms by (auto simp: startup_def doPush_def split: sum.splits option.splits)

lemma start_step:
  assumes "loop_inv V s" "exec1 X V l s = Some s'" "started s < started s'"
  shows "in_flight s = 0 \<and> in_flight s' = 1
     \<and> (\<exists>i. l = Recv i
          \<and> (watcherState s = initialDelay \<and> prog (goroutines s ! i) = [Send initialDelayDone]
             \<or> watcherState s = pushingAndGotEvent \<and> prog (goroutines s ! i) = [Send pushDone]))"
proof (cases l)
  case (Tick d)
  with assms show ?thesis by (auto simp: started_def)
next
  case (FileEvent ei)
  with assms fileWatch_relevant [of X s ei V] fileWatch_irrelevant [of X s ei V]
  show ?thesis by (cases "relevant X (absPath s) ei") auto
next
  case (Recv i)
  with assms show ?thesis
    unfolding loop_inv_cases
    by (auto simp: push_phase_iff advance_def recv_chan_def case_initialDelayDone_def
        case_pushDone_def doPush_change in_flight_def started_def
        split: if_splits list.splits stmt.splits chan.splits)
next
  case (Step i r)
  with assms show ?thesis
    by (auto simp: started_def split: if_splits list.splits stmt.splits)
qed

lemma arm_step:
  assumes "loop_inv V s" "exec1 X V l s = Some s'" "armed s < armed s'"
  shows "watcherState s = waiting \<and> watcherState s' = initialDelay \<and> timers s = []
     \<and> length (timers s') = 1 \<and> (\<exists>ei. l = FileEvent ei \<and> relevant X (absPath s) ei)"
proof (cases l)
  case (Tick d)
  with assms show ?thesis by (auto simp: armed_def)
next
  case (FileEvent ei)
  with assms fileWatch_relevant [of X s ei V] fileWatch_irrelevant [of X s ei V]
  show ?thesis
    unfolding loop_inv_cases
    by (cases "relevant X (absPath s) ei") (auto simp: timers_def split: if_splits)
next
  case (Recv i)
  with assms show ?thesis
    by (auto simp: recv_chan_def case_initialDelayDone_def
        case_pushDone_def armed_def
        split: if_splits list.splits stmt.splits chan.splits)
next
  case (Step i r)
  with assms show ?thesis
    by (auto simp: armed_def split: if_splits list.splits stmt.splits)
qed

lemma expiry_step:
  assumes "loop_inv V s" "exec1 X V (Recv i) s = Some s'"
    "prog (goroutines s ! i) = Send initialDelayDone # rest"
  shows "watcherState s = initialDelay \<and> watcherState s' = pushing \<and> timers s' = []"
  using assms unfolding loop_inv_cases
  by (auto simp: push_phase_iff advance_def recv_chan_def case_initialDelayDone_def timers_def
      doPush_change split: if_splits)

lemma leave_delay_step:
  assumes "loop_inv V s" "exec1 X V l s = Some s'" "watcherState s = initialDelay"
    "watcherState s' \<noteq> initialDelay"
  shows "(\<exists>i. l = Recv i \<and> prog (goroutines s ! i) = [Send initialDelayDone])
     \<and> watcherState s' = pushing"
proof (cases l)
  case (Tick d)
  with assms show ?thesis by auto
next
  case (FileEvent ei)
  with assms fileWatch_relevant [of X s ei V] fileWatch_irrelevant [of X s ei V]
  show ?thesis by (cases "relevant X (absPath s) ei") auto
next
  case (Recv i)
  with assms show ?thesis
    unfolding loop_inv_cases
    by (auto simp: advance_def recv_chan_def case_initialDelayDone_def
        split: if_splits)
next
  case (Step i r)
  with assms show ?thesis
    by (auto split: if_splits list.splits stmt.splits)
qed

text \<open>
  C5. The loop starts only after the first push has run to its end on the caller's
  goroutine (its call is already in the trace, and no goroutine is live). In every state
  that an execution from there reaches, at most one goroutine is live, so at most one
  still has its call of \<^verbatim>\<open>push\<close> to finish. A step starts a push only when none is in flight, and that step
  is the loop receiving either the expiry of the timer in state \<open>initialDelay\<close> or the
  completion of the previous push in state \<open>pushingAndGotEvent\<close>.
\<close>

theorem one_push_in_flight:
  assumes "startup X V r = Inr s0" "exec X V ls s0 = Some s"
  shows "goroutines s0 = []
     \<and> trace s0 = [Ev_StartServer, Ev_push (appPath V) False 180 (timeout V) (localFrontend V) r,
                    Ev_SendReload]
     \<and> length (goroutines s) \<le> 1
     \<and> in_flight s \<le> 1
     \<and> (\<forall>l s'. exec1 X V l s = Some s' \<and> started s < started s' \<longrightarrow>
           in_flight s = 0 \<and> in_flight s' = 1
           \<and> (\<exists>i. l = Recv i
                \<and> (watcherState s = initialDelay
                      \<and> prog (goroutines s ! i) = [Send initialDelayDone]
                   \<or> watcherState s = pushingAndGotEvent
                      \<and> prog (goroutines s ! i) = [Send pushDone])))"
proof -
  from assms have inv: "loop_inv V s" by (blast intro: inv_exec inv_startup)
  from startup_state [OF assms(1)] inv_in_flight [OF inv] start_step [OF inv]
  show ?thesis by blast
qed

text \<open>
  C6. In every state that an execution from startup reaches, at most one timer is
  pending, and one is pending only in state \<open>initialDelay\<close>. Whenever the loop receives
  the expiry, the state is \<open>initialDelay\<close> (and becomes \<open>pushing\<close>). A timer is armed
  only by a relevant notification in state \<open>waiting\<close>, which gives \<open>initialDelay\<close>, and
  only when no timer is pending. The only step that leaves \<open>initialDelay\<close> is the loop
  receiving the timer's expiry.
\<close>

theorem expiry_only_in_initialDelay:
  assumes "startup X V r = Inr s0" "exec X V ls s0 = Some s"
  shows "length (timers s) \<le> 1
     \<and> (timers s \<noteq> [] \<longrightarrow> watcherState s = initialDelay)
     \<and> (\<forall>i rest s'. exec1 X V (Recv i) s = Some s'
            \<and> prog (goroutines s ! i) = Send initialDelayDone # rest \<longrightarrow>
           watcherState s = initialDelay \<and> watcherState s' = pushing \<and> timers s' = [])
     \<and> (\<forall>l s'. exec1 X V l s = Some s' \<and> armed s < armed s' \<longrightarrow>
           watcherState s = waiting \<and> watcherState s' = initialDelay \<and> timers s = []
           \<and> length (timers s') = 1 \<and> (\<exists>ei. l = FileEvent ei \<and> relevant X (absPath s) ei))
     \<and> (\<forall>l s'. watcherState s = initialDelay \<and> exec1 X V l s = Some s'
            \<and> watcherState s' \<noteq> initialDelay \<longrightarrow>
           (\<exists>i. l = Recv i \<and> prog (goroutines s ! i) = [Send initialDelayDone])
           \<and> watcherState s' = pushing)"
proof -
  from assms have inv: "loop_inv V s" by (blast intro: inv_exec inv_startup)
  from inv_timers [OF inv] expiry_step [OF inv] arm_step [OF inv] leave_delay_step [OF inv]
  show ?thesis by blast
qed

subsection \<open>The sample session\<close>

lemmas sample_defs =
  sample_extern_def sample_vars_def saved_def vcs_def idle_def mid_push_def started_up_def

lemmas run_defs =
  case_fileWatch_def recv_chan_def case_initialDelayDone_def case_pushDone_def advance_def
  doPush_def Millisecond_def Let_def

text \<open>Two saves and a change under \<^verbatim>\<open>.git\<close> during one push, which fails.\<close>

theorem mid_push_coalescing_witness:
  "watcherState mid_push = pushing
   \<and> list_all (\<lambda>l. \<not> is_Recv l)
        [FileEvent saved, Step 0 Failed, FileEvent saved, FileEvent vcs, Step 0 Succeeded]
   \<and> length (filter (is_change sample_extern (absPath mid_push))
        [FileEvent saved, Step 0 Failed, FileEvent saved, FileEvent vcs, Step 0 Succeeded]) = 2
   \<and> (\<exists>s2. exec sample_extern sample_vars
              ([FileEvent saved, Step 0 Failed, FileEvent saved, FileEvent vcs, Step 0 Succeeded]
                @ [Recv 0]) mid_push = Some s2
         \<and> watcherState s2 = pushing
         \<and> goroutines s2 = [\<lparr>wake = 7, prog = doPush sample_vars False (Some pushDone)\<rparr>]
         \<and> started s2 = 1)"
proof -
  let ?ls = "[FileEvent saved, Step 0 Failed, FileEvent saved, FileEvent vcs, Step 0 Succeeded]"
  define s2 where "s2 = the (exec sample_extern sample_vars (?ls @ [Recv 0]) mid_push)"
  have run: "exec sample_extern sample_vars (?ls @ [Recv 0]) mid_push = Some s2"
    unfolding s2_def by (simp add: sample_defs run_defs)
  have n: "now s2 = 7" unfolding s2_def by (simp add: sample_defs run_defs)
  have h1: "watcherState mid_push = pushing"
    and h2: "goroutines mid_push = [\<lparr>wake = 7, prog = doPush sample_vars False (Some pushDone)\<rparr>]"
    and h3: "push_phase sample_vars (prog \<lparr>wake = 7, prog = doPush sample_vars False (Some pushDone)\<rparr>)"
    and h4: "\<forall>l\<in>set ?ls. \<not> is_Recv l"
    by (simp_all add: mid_push_def push_phase_def)
  have h5: "length (filter (is_change sample_extern (absPath mid_push)) ?ls) = 2"
    by (simp add: relevant_def sample_defs)
  then have h5': "1 \<le> length (filter (is_change sample_extern (absPath mid_push)) ?ls)"
    by simp
  from mid_push_coalescing [OF h1 h2 h3 h4 h5' run]
  have "watcherState s2 = pushing
     \<and> goroutines s2 = [\<lparr>wake = now s2, prog = doPush sample_vars False (Some pushDone)\<rparr>]
     \<and> started s2 = started mid_push + 1"
    by blast
  moreover have "started mid_push = 0" by (simp add: started_def mid_push_def)
  ultimately show ?thesis using run h1 h4 h5 n by (simp add: list_all_iff)
qed

text \<open>Saves at 0 ms, 10 ms and 50 ms; the expiry is received at 100 ms.\<close>

theorem debounce_absorption_witness:
  "watcherState idle = waiting \<and> goroutines idle = []
   \<and> relevant sample_extern (absPath idle) saved
   \<and> list_all (\<lambda>l. \<not> is_Recv l)
        [Tick 10000000, FileEvent saved, Tick 40000000, FileEvent saved, Tick 50000000]
   \<and> (\<exists>s2 s3. exec sample_extern sample_vars
              (FileEvent saved #
                [Tick 10000000, FileEvent saved, Tick 40000000, FileEvent saved, Tick 50000000])
              idle = Some s2
         \<and> now s2 = 100000000
         \<and> goroutines s2 = [\<lparr>wake = 100000000, prog = [Send initialDelayDone]\<rparr>]
         \<and> armed s2 = 1 \<and> started s2 = 0
         \<and> exec1 sample_extern sample_vars (Recv 0) s2 = Some s3
         \<and> watcherState s3 = pushing \<and> started s3 = 1 \<and> armed s3 = 1)"
proof -
  let ?ls = "[Tick 10000000, FileEvent saved, Tick 40000000, FileEvent saved, Tick 50000000]"
  define s2 where "s2 = the (exec sample_extern sample_vars (FileEvent saved # ?ls) idle)"
  have run: "exec sample_extern sample_vars (FileEvent saved # ?ls) idle = Some s2"
    unfolding s2_def by (simp add: sample_defs run_defs)
  have n: "now s2 = 100000000" unfolding s2_def by (simp add: sample_defs run_defs)
  have h1: "watcherState idle = waiting" and h2: "goroutines idle = []"
    and h4: "\<forall>l\<in>set ?ls. \<not> is_Recv l"
    by (simp_all add: idle_def)
  have h3: "relevant sample_extern (absPath idle) saved"
    by (simp add: relevant_def sample_defs)
  have z: "armed idle = 0" "started idle = 0" "now idle = 0"
    by (simp_all add: armed_def started_def idle_def)
  note inst = debounce_absorption [OF h1 h2 h3 h4 run]
  have b: "goroutines s2 = [\<lparr>wake = 100000000, prog = [Send initialDelayDone]\<rparr>]"
    "armed s2 = 1" "started s2 = 0"
    using inst z by (simp_all add: Millisecond_def del: exec1.simps exec.simps)
  obtain s3 where s3: "exec1 sample_extern sample_vars (Recv 0) s2 = Some s3"
    "watcherState s3 = pushing" "started s3 = 1" "armed s3 = 1"
    using inst n z by (auto simp add: Millisecond_def simp del: exec1.simps exec.simps)
  show ?thesis
    using run n h1 h2 h3 h4 b s3
    by (auto simp add: list_all_iff simp del: exec1.simps exec.simps)
qed

text \<open>From startup: a save, the expiry, and a save during the push.\<close>

theorem one_push_in_flight_witness:
  "startup sample_extern sample_vars Succeeded = Inr started_up
   \<and> (\<exists>s. exec sample_extern sample_vars
             [FileEvent saved, Tick 100000000, Recv 0, FileEvent saved] started_up = Some s
         \<and> watcherState s = pushingAndGotEvent
         \<and> in_flight s = 1
         \<and> in_flight s \<le> 1)"
proof -
  let ?ls = "[FileEvent saved, Tick 100000000, Recv 0, FileEvent saved]"
  define s where "s = the (exec sample_extern sample_vars ?ls started_up)"
  have st: "startup sample_extern sample_vars Succeeded = Inr started_up"
    by (simp add: startup_def sample_defs doPush_def)
  have run: "exec sample_extern sample_vars ?ls started_up = Some s"
    unfolding s_def by (simp add: sample_defs run_defs)
  have w: "watcherState s = pushingAndGotEvent" "in_flight s = 1"
    unfolding s_def by (simp_all add: sample_defs run_defs in_flight_def)
  from one_push_in_flight [OF st run] have "in_flight s \<le> 1" by blast
  with st run w show ?thesis by blast
qed

text \<open>From startup: a save, and another one after the timer has expired but before the loop
  has received the expiry.\<close>

theorem expiry_only_in_initialDelay_witness:
  "startup sample_extern sample_vars Succeeded = Inr started_up
   \<and> (\<exists>s. exec sample_extern sample_vars
             [FileEvent saved, Tick 100000000, FileEvent saved] started_up = Some s
         \<and> timers s = [\<lparr>wake = 100000000, prog = [Send initialDelayDone]\<rparr>]
         \<and> watcherState s = initialDelay)"
proof -
  let ?ls = "[FileEvent saved, Tick 100000000, FileEvent saved]"
  define s where "s = the (exec sample_extern sample_vars ?ls started_up)"
  have st: "startup sample_extern sample_vars Succeeded = Inr started_up"
    by (simp add: startup_def sample_defs doPush_def)
  have run: "exec sample_extern sample_vars ?ls started_up = Some s"
    unfolding s_def by (simp add: sample_defs run_defs)
  have t: "timers s = [\<lparr>wake = 100000000, prog = [Send initialDelayDone]\<rparr>]"
    unfolding s_def by (simp add: sample_defs run_defs timers_def)
  from expiry_only_in_initialDelay [OF st run] t have "watcherState s = initialDelay" by simp
  with st run t show ?thesis by blast
qed

subsection \<open>The browser and the reload\<close>

text \<open>
  C7. The variable \<^verbatim>\<open>noBrowser\<close> is bound to the flag and read nowhere in watch.go:
  the third argument of \<^verbatim>\<open>push\<close> is \<^verbatim>\<open>!openBrowser\<close>, and \<^verbatim>\<open>openBrowser\<close> is the
  constant of the call site. With the flag set, the first push is called with the same
  arguments as without it.
\<close>

theorem doPush_ignores_noBrowser:
  "noBrowser sample_vars
   \<and> doPush sample_vars True None = [Call_push ''.'' False 180 10 False]
   \<and> doPush (sample_vars\<lparr>noBrowser := False\<rparr>) True None = [Call_push ''.'' False 180 10 False]"
  by (simp add: doPush_def sample_vars_def)

text \<open>C8, as stated, fails: the startup sends a reload right after the first push.\<close>

theorem reload_after_initial_push_counterexample:
  "startup sample_extern sample_vars Succeeded = Inr started_up
   \<and> trace started_up = [Ev_StartServer, Ev_push ''.'' False 180 10 False Succeeded, Ev_SendReload]"
  by (simp add: startup_def sample_extern_def sample_vars_def doPush_def started_up_def)

text \<open>
  C8, amended. \<^verbatim>\<open>doPush\<close> with \<^verbatim>\<open>openBrowser\<close> set, as the startup calls it, only
  calls \<^verbatim>\<open>push\<close> and sends no reload itself, however the push ends; the startup then
  sends one reload, so that the trace at the start of the loop is the server's start,
  the first push and a reload. A change-triggered \<^verbatim>\<open>doPush\<close> goroutine calls
  \<^verbatim>\<open>push\<close> and then sends the reload, however the push ends, and only then is its
  completion ready to be received.
\<close>

theorem reload_after_every_push:
  "(\<forall>r. run_sync r (doPush V True None) =
          Some [Ev_push (appPath V) False 180 (timeout V) (localFrontend V) r])
   \<and> (\<forall>X r s0. startup X V r = Inr s0 \<longrightarrow>
          trace s0 = [Ev_StartServer,
                      Ev_push (appPath V) False 180 (timeout V) (localFrontend V) r,
                      Ev_SendReload])
   \<and> (\<forall>X s i r r'.
          i < length (goroutines s) \<and> wake (goroutines s ! i) \<le> now s
          \<and> prog (goroutines s ! i) = doPush V False (Some pushDone) \<longrightarrow>
          exec1 X V (Recv i) s = None
          \<and> (\<exists>s1. exec1 X V (Step i r) s = Some s1 \<and> exec1 X V (Recv i) s1 = None)
          \<and> (\<exists>s2. exec X V [Step i r, Step i r'] s = Some s2
                \<and> trace s2 =
                    trace s @ [Ev_push (appPath V) True 180 (timeout V) (localFrontend V) r,
                               Ev_SendReload]
                \<and> prog (goroutines s2 ! i) = [Send pushDone]))"
proof (intro conjI allI impI)
  fix r
  show "run_sync r (doPush V True None) =
          Some [Ev_push (appPath V) False 180 (timeout V) (localFrontend V) r]"
    by (simp add: doPush_def)
next
  fix X r s0
  assume "startup X V r = Inr s0"
  then show "trace s0 = [Ev_StartServer,
                      Ev_push (appPath V) False 180 (timeout V) (localFrontend V) r,
                      Ev_SendReload]"
    by (auto simp: startup_def doPush_def split: sum.splits option.splits)
next
  fix X :: extern and s :: sys and i :: nat and r r' :: outcome
  assume a: "i < length (goroutines s) \<and> wake (goroutines s ! i) \<le> now s
          \<and> prog (goroutines s ! i) = doPush V False (Some pushDone)"
  then show "exec1 X V (Recv i) s = None"
    by (simp add: doPush_change)
  from a show "\<exists>s1. exec1 X V (Step i r) s = Some s1 \<and> exec1 X V (Recv i) s1 = None"
    by (simp add: doPush_change advance_def)
  from a show "\<exists>s2. exec X V [Step i r, Step i r'] s = Some s2
                \<and> trace s2 =
                    trace s @ [Ev_push (appPath V) True 180 (timeout V) (localFrontend V) r,
                               Ev_SendReload]
                \<and> prog (goroutines s2 ! i) = [Send pushDone]"
    by (simp add: doPush_change advance_def)
qed

text \<open>A startup whose push fails, and a change-triggered push that fails.\<close>

theorem reload_after_every_push_witness:
  "startup sample_extern sample_vars Failed =
     Inr (started_up\<lparr>trace := [Ev_StartServer, Ev_push ''.'' False 180 10 False Failed,
                                Ev_SendReload]\<rparr>)
   \<and> (\<exists>s2. exec sample_extern sample_vars [Step 0 Failed, Step 0 Succeeded] mid_push = Some s2
         \<and> trace s2 = [Ev_push ''.'' True 180 10 False Failed, Ev_SendReload]
         \<and> prog (goroutines s2 ! 0) = [Send pushDone])"
proof -
  have s: "startup sample_extern sample_vars Failed =
     Inr (started_up\<lparr>trace := [Ev_StartServer, Ev_push ''.'' False 180 10 False Failed,
                                Ev_SendReload]\<rparr>)"
    by (simp add: startup_def sample_extern_def sample_vars_def doPush_def started_up_def)
  have g: "0 < length (goroutines mid_push) \<and> wake (goroutines mid_push ! 0) \<le> now mid_push
          \<and> prog (goroutines mid_push ! 0) = doPush sample_vars False (Some pushDone)"
    by (simp add: mid_push_def)
  from reload_after_every_push [of sample_vars] g
  have "\<exists>s2. exec sample_extern sample_vars [Step 0 Failed, Step 0 Succeeded] mid_push = Some s2
         \<and> trace s2 = trace mid_push @ [Ev_push (appPath sample_vars) True 180 (timeout sample_vars)
               (localFrontend sample_vars) Failed, Ev_SendReload]
         \<and> prog (goroutines s2 ! 0) = [Send pushDone]"
    by blast
  with s show ?thesis by (simp add: mid_push_def sample_vars_def)
qed

section \<open>Properties of the upload\<close>

lemma TrimSpace_empty: "TrimSpace [] = []"
proof -
  have l: "leading_space [] = 0" by (simp add: leading_space_def space_runes_def)
  have r: "trailing_space [] = 0" by (simp add: trailing_space_def space_runes_def)
  have "TrimLeft [] = []" using TrimLeft.simps [of "[]"] l by simp
  moreover have "TrimRight [] = []" using TrimRight.simps [of "[]"] r by simp
  ultimately show ?thesis by (simp add: TrimSpace_def)
qed

lemma upload_cases:
  "fst (UploadToFrontend W uploadURI zapFile appName sessionID verbose) =
     (case CreateMultiFileUploadRequest W uploadURI [''file'' \<mapsto> zapFile] [''name'' \<mapsto> appName]
             verbose of
        Inl err \<Rightarrow> ([], Some err)
      | Inr request \<Rightarrow>
          (case client_Do W request of
             Inl err \<Rightarrow> ([], Some err)
           | Inr response \<Rightarrow>
               if StatusCode response \<noteq> 200 then
                 ([], Some (Errorf ''Uploading failed, the frontend returned status code %v''
                              [StatusCode response]))
               else
                 (case ioutil_ReadAll W (Body response) of
                    Inl err \<Rightarrow> ([], Some err)
                  | Inr responseBody \<Rightarrow>
                      (case json_Unmarshal W responseBody of
                         Inl err \<Rightarrow> ([], Some err)
                       | Inr responseObject \<Rightarrow>
                           if TrimSpace (index_string (index_map responseObject ''links'') ''progress'') = []
                           then ([], Some (Errorf ''Uploading failed, the app catalog did not return a valid response'' []))
                           else (index_string (index_map responseObject ''links'') ''progress'', None)))))"
  by (simp add: UploadToFrontend_def Let_def http_StatusOK_def split: sum.splits)

text \<open>
  C10. Whatever the calls it makes return, \<^verbatim>\<open>UploadToFrontend\<close> returns a nil error
  exactly when the returned \<^verbatim>\<open>pollURI\<close> is not empty after \<^verbatim>\<open>strings.TrimSpace\<close>, and
  with a non-nil error it returns the empty string. Path by path: a failure to create
  the request, a failure of the HTTP call, a status other than 200, a failure to read
  the body, a failure to unmarshal it, no \<^verbatim>\<open>links\<close>, no \<^verbatim>\<open>progress\<close> and a blank
  \<^verbatim>\<open>progress\<close> each give the empty string and an error (the callee's own error where
  there is one); otherwise the result is the progress link and nil.
\<close>

theorem UploadToFrontend_result:
  assumes "fst (UploadToFrontend W uploadURI zapFile appName sessionID verbose) = (pollURI, err)"
  shows "(err = None \<longleftrightarrow> length (TrimSpace pollURI) \<noteq> 0)
     \<and> (err \<noteq> None \<longrightarrow> pollURI = [])
     \<and> (case CreateMultiFileUploadRequest W uploadURI [''file'' \<mapsto> zapFile]
               [''name'' \<mapsto> appName] verbose of
          Inl e \<Rightarrow> pollURI = [] \<and> err = Some e
        | Inr request \<Rightarrow>
            (case client_Do W request of
               Inl e \<Rightarrow> pollURI = [] \<and> err = Some e
             | Inr response \<Rightarrow>
                 if StatusCode response \<noteq> 200 then
                   pollURI = [] \<and> err \<noteq> None
                 else
                   (case ioutil_ReadAll W (Body response) of
                      Inl e \<Rightarrow> pollURI = [] \<and> err = Some e
                    | Inr responseBody \<Rightarrow>
                        (case json_Unmarshal W responseBody of
                           Inl e \<Rightarrow> pollURI = [] \<and> err = Some e
                         | Inr responseObject \<Rightarrow>
                             (case responseObject ''links'' of
                                None \<Rightarrow> pollURI = [] \<and> err \<noteq> None
                              | Some links \<Rightarrow>
                                  (case links ''progress'' of
                                     None \<Rightarrow> pollURI = [] \<and> err \<noteq> None
                                   | Some progressUri \<Rightarrow>
                                       if TrimSpace progressUri = [] then pollURI = [] \<and> err \<noteq> None
                                       else pollURI = progressUri \<and> err = None))))))"
  using assms unfolding upload_cases
  by (auto simp: TrimSpace_empty index_map_def index_string_def split: sum.splits option.splits if_splits)

text \<open>A frontend that answers 200 with a progress link.\<close>

theorem UploadToFrontend_result_witness:
  "fst (UploadToFrontend sample_frontend ''http://f/upload'' ''app.zap'' ''app'' ''7'' False) =
     ('' http://f/p'', None)
   \<and> length (TrimSpace '' http://f/p'') \<noteq> 0"
proof -
  have t: "TrimSpace '' http://f/p'' = ''http://f/p''" by code_simp
  have h: "fst (UploadToFrontend sample_frontend ''http://f/upload'' ''app.zap'' ''app'' ''7'' False) =
     ('' http://f/p'', None)"
    unfolding upload_cases by (simp add: sample_frontend_def index_map_def index_string_def t)
  from UploadToFrontend_result [OF h] h show ?thesis by simp
qed

end
